theory Spec2Isabelle
  imports Main "HOL-Library.Word"
begin

section \<open>Values, Go maps and the memory the map pointers refer to\<close>

text \<open>
  A value of Go type \<^verbatim>\<open>*V\<close> is \<open>None\<close> for the nil pointer and \<open>Some x\<close> for a pointer to
  \<open>x\<close>. A Go \<^verbatim>\<open>map[K]*V\<close> is a partial function from keys to such pointers; keys are compared
  with HOL equality (Go's \<^verbatim>\<open>comparable\<close>; a float NaN key, unequal to itself, is outside the
  model). The engine holds values of type \<^verbatim>\<open>*map[K]*V\<close>: these are addresses into a store of
  map objects, so that two pointers to the same map object see the same contents.
\<close>

type_synonym 'v ptr = "'v option"
type_synonym ('k, 'v) gomap = "'k \<rightharpoonup> 'v ptr"
type_synonym addr = nat
type_synonym ('k, 'v) store = "addr \<Rightarrow> ('k, 'v) gomap"

text \<open>The two-result index expression \<^verbatim>\<open>v, ok := m[key]\<close>: an absent key gives the zero value nil
  and \<^verbatim>\<open>false\<close>.\<close>

definition index :: "('k, 'v) gomap \<Rightarrow> 'k \<Rightarrow> 'v ptr \<times> bool" where
  "index m key = (case m key of None \<Rightarrow> (None, False) | Some v \<Rightarrow> (v, True))"

section \<open>pkg/oplog: entries and the log\<close>

text \<open>
  The struct \<^verbatim>\<open>entry{t, k, v}\<close> is a tagged union: the tag \<^verbatim>\<open>t\<close> (entryTypeInsert,
  entryTypeDelete, entryTypeClear) is the constructor, and each constructor keeps the fields
  that \<^verbatim>\<open>applyEntry\<close> reads under that tag. The constructors carry the names of the Go functions
  that build the entries (\<^verbatim>\<open>oplog.Insert\<close>, \<^verbatim>\<open>oplog.Delete\<close>, \<^verbatim>\<open>oplog.Clear\<close>).
\<close>

datatype ('k, 'v) entry = Insert 'k "'v ptr" | Delete 'k | Clear

record ('k, 'v) Log =
  entries :: "('k, 'v) entry list"
  latest :: "('k, 'v) entry option"

definition NewLog :: "('k, 'v) Log" where
  "NewLog = \<lparr>entries = [], latest = None\<rparr>"

text \<open>\<^verbatim>\<open>applyEntry(e, m)\<close> mutates the map object behind the pointer \<open>m\<close>. The loop of the Clear
  case deletes every key the range visits, which leaves the map object empty.\<close>

definition applyEntry :: "('k, 'v) entry \<Rightarrow> addr \<Rightarrow> ('k, 'v) store \<Rightarrow> ('k, 'v) store" where
  "applyEntry e m h =
     (case e of
        Insert key val \<Rightarrow> h(m := (h m)(key \<mapsto> val))
      | Delete key \<Rightarrow> h(m := (h m)(key := None))
      | Clear \<Rightarrow> h(m := Map.empty))"

definition Log_Push :: "('k, 'v) entry \<Rightarrow> ('k, 'v) Log \<Rightarrow> ('k, 'v) Log" where
  "Log_Push e l = l\<lparr>entries := entries l @ [e], latest := Some e\<rparr>"

definition Log_PushAndApply ::
  "('k, 'v) entry \<Rightarrow> addr \<Rightarrow> ('k, 'v) Log \<times> ('k, 'v) store \<Rightarrow> ('k, 'v) Log \<times> ('k, 'v) store" where
  "Log_PushAndApply e m lh =
     (case lh of (l, h) \<Rightarrow>
        (l\<lparr>entries := entries l @ [e], latest := Some e\<rparr>, applyEntry e m h))"

text \<open>The loop \<^verbatim>\<open>for _, e := range l.entries { applyEntry(e, m) }\<close>.\<close>

fun applyEntries :: "('k, 'v) entry list \<Rightarrow> addr \<Rightarrow> ('k, 'v) store \<Rightarrow> ('k, 'v) store" where
  "applyEntries [] m h = h"
| "applyEntries (e # es) m h = applyEntries es m (applyEntry e m h)"

definition Log_Apply :: "('k, 'v) Log \<Rightarrow> addr \<Rightarrow> ('k, 'v) store \<Rightarrow> ('k, 'v) store" where
  "Log_Apply l m h = applyEntries (entries l) m h"

definition Log_Clear :: "('k, 'v) Log \<Rightarrow> ('k, 'v) Log" where
  "Log_Clear l = l\<lparr>entries := []\<rparr>"

definition Log_Len :: "('k, 'v) Log \<Rightarrow> int" where
  "Log_Len l = int (length (entries l))"

text \<open>
  The replay as the specification words it, on the contents of one map: an Insert sets or
  overwrites its key, a Delete removes its key if present and does nothing otherwise, a Clear
  removes every key that is currently in the map.
\<close>

definition spec_replay_entry :: "('k, 'v) gomap \<Rightarrow> ('k, 'v) entry \<Rightarrow> ('k, 'v) gomap" where
  "spec_replay_entry g e =
     (case e of
        Insert key val \<Rightarrow> g(key \<mapsto> val)
      | Delete key \<Rightarrow> (if key \<in> dom g then g |` (- {key}) else g)
      | Clear \<Rightarrow> g |` (- dom g))"

definition spec_replay :: "('k, 'v) entry list \<Rightarrow> ('k, 'v) gomap \<Rightarrow> ('k, 'v) gomap" where
  "spec_replay es g = foldl spec_replay_entry g es"

section \<open>reader.go: reader handles\<close>

text \<open>
  A panic is an error value. \<open>ReaderClosed\<close> is \<^verbatim>\<open>panic("reader closed")\<close>;
  \<open>IndexOutOfRange\<close> is the run-time panic of a slice index outside \<^verbatim>\<open>0 <= i < len(s)\<close>.
\<close>

datatype error = ReaderClosed | IndexOutOfRange

text \<open>
  The struct \<^verbatim>\<open>Reader\<close>. Its field \<^verbatim>\<open>m\<close> points back to the one engine of the state the reader
  lives in, and its mutex has no sequential content; neither is a field of the record.
\<close>

record Reader =
  closed :: bool
  rd_readable :: addr

text \<open>\<^verbatim>\<open>NewReader(m)\<close> reads only \<^verbatim>\<open>m.readable\<close>, which is the argument here.\<close>

definition NewReader :: "addr \<Rightarrow> Reader" where
  "NewReader m_readable = \<lparr>closed = False, rd_readable = m_readable\<rparr>"

definition Reader_Get :: "Reader \<Rightarrow> ('k, 'v) store \<Rightarrow> 'k \<Rightarrow> error + ('v ptr \<times> bool)" where
  "Reader_Get r h key =
     (if closed r then Inl ReaderClosed else Inr (index (h (rd_readable r)) key))"

definition Reader_Has :: "Reader \<Rightarrow> ('k, 'v) store \<Rightarrow> 'k \<Rightarrow> error + bool" where
  "Reader_Has r h key =
     (if closed r then Inl ReaderClosed else Inr (snd (index (h (rd_readable r)) key)))"

definition swapReadable :: "Reader \<Rightarrow> addr \<Rightarrow> Reader" where
  "swapReadable r m = r\<lparr>rd_readable := m\<rparr>"

text \<open>
  \<^verbatim>\<open>remove(s, i)\<close> writes the last element at index \<open>i\<close> of the slice's backing array and
  returns the slice shortened by one. The result is the pair of the backing array after the
  write (what every other holder of the slice sees) and the returned slice.
\<close>

definition remove :: "'a list \<Rightarrow> nat \<Rightarrow> error + ('a list \<times> 'a list)" where
  "remove s i =
     (if i < length s
      then (let s' = s[i := s ! (length s - 1)] in Inr (s', take (length s - 1) s'))
      else Inl IndexOutOfRange)"

section \<open>The engine with a reader registry (src/unnamed/part_000)\<close>

text \<open>
  The repository holds two revisions of the struct \<^verbatim>\<open>Map\<close>. Both have the fields
  \<^verbatim>\<open>readable\<close>, \<^verbatim>\<open>writable\<close> and \<^verbatim>\<open>oplog\<close>; the record \<open>MapCore\<close> holds them, with the store
  \<open>maps\<close> of the map objects that the two pointers refer to. \<open>RMap\<close> is the revision of
  src/unnamed/part_000, which adds the registry \<^verbatim>\<open>readers\<close> (a slice of reader pointers:
  indices into \<open>rheap\<close>, the memory of the reader objects). \<open>LMap\<close> below is the revision of
  src/map.go. Mutexes have no sequential content and are left out: every function runs
  alone from call to return.
\<close>

record ('k, 'v) MapCore =
  readable :: addr
  writable :: addr
  oplog :: "('k, 'v) Log"
  maps :: "('k, 'v) store"

record ('k, 'v) RMap = "('k, 'v) MapCore" +
  readers :: "nat list"
  rheap :: "Reader list"

text \<open>\<^verbatim>\<open>NewMap\<close> allocates the map object \<^verbatim>\<open>r\<close> at address 0 and \<^verbatim>\<open>w\<close> at address 1.\<close>

definition RMap_NewMap :: "('k, 'v) RMap" where
  "RMap_NewMap =
     \<lparr>readable = 0, writable = 1, oplog = NewLog, maps = (\<lambda>_. Map.empty),
      readers = [], rheap = []\<rparr>"

text \<open>\<^verbatim>\<open>atomic.SwapPointer(addr, new)\<close> stores \<open>new\<close> in the cell and returns the cell's old
  value: the result is (cell after, value returned).\<close>

definition SwapPointer :: "addr \<Rightarrow> addr \<Rightarrow> addr \<times> addr" where
  "SwapPointer cell new = (new, cell)"

definition swapLocked :: "('k, 'v) RMap \<Rightarrow> ('k, 'v) RMap" where
  "swapLocked m =
     (let readable0 = readable m;
          writable0 = writable m;
          (writable1, ret1) = SwapPointer writable0 readable0;
          m1 = m\<lparr>readable := ret1\<rparr>;
          (readable1, ret2) = SwapPointer readable0 writable1
      in m1\<lparr>writable := ret2\<rparr>)"

text \<open>The deferred \<^verbatim>\<open>m.oplog.Clear()\<close> runs after \<^verbatim>\<open>m.oplog.Apply(m.writable)\<close>.\<close>

definition syncLocked :: "('k, 'v) RMap \<Rightarrow> ('k, 'v) RMap" where
  "syncLocked m =
     (let m1 = m\<lparr>maps := Log_Apply (oplog m) (writable m) (maps m)\<rparr>
      in m1\<lparr>oplog := Log_Clear (oplog m1)\<rparr>)"

text \<open>The loop \<^verbatim>\<open>for _, r := range m.readers { r.swapReadable(m.readable) }\<close> on the memory of
  the reader objects.\<close>

fun swapReaders :: "nat list \<Rightarrow> addr \<Rightarrow> Reader list \<Rightarrow> Reader list" where
  "swapReaders [] a rh = rh"
| "swapReaders (r # rs) a rh = swapReaders rs a (rh[r := swapReadable (rh ! r) a])"

definition RMap_Refresh :: "('k, 'v) RMap \<Rightarrow> ('k, 'v) RMap" where
  "RMap_Refresh m =
     (let m1 = swapLocked m;
          m2 = m1\<lparr>rheap := swapReaders (readers m1) (readable m1) (rheap m1)\<rparr>
      in syncLocked m2)"

text \<open>\<^verbatim>\<open>Map.Reader\<close> allocates the new reader object at the next free address of \<open>rheap\<close> and
  returns that address with the new state.\<close>

definition RMap_Reader :: "('k, 'v) RMap \<Rightarrow> nat \<times> ('k, 'v) RMap" where
  "RMap_Reader m =
     (let r = length (rheap m);
          m1 = m\<lparr>rheap := rheap m @ [NewReader (readable m)]\<rparr>
      in (r, m1\<lparr>readers := readers m1 @ [r]\<rparr>))"

definition RMap_Insert :: "'k \<Rightarrow> 'v ptr \<Rightarrow> ('k, 'v) RMap \<Rightarrow> ('k, 'v) RMap" where
  "RMap_Insert key val m =
     (case Log_PushAndApply (Insert key val) (writable m) (oplog m, maps m) of
        (l, h) \<Rightarrow> m\<lparr>oplog := l, maps := h\<rparr>)"

definition RMap_Delete :: "'k \<Rightarrow> ('k, 'v) RMap \<Rightarrow> bool \<times> ('k, 'v) RMap" where
  "RMap_Delete key m =
     (let ok = snd (index (maps m (writable m)) key)
      in case Log_PushAndApply (Delete key) (writable m) (oplog m, maps m) of
           (l, h) \<Rightarrow> (ok, m\<lparr>oplog := l, maps := h\<rparr>))"

definition RMap_Clear :: "('k, 'v) RMap \<Rightarrow> ('k, 'v) RMap" where
  "RMap_Clear m =
     (case Log_PushAndApply Clear (writable m) (oplog m, maps m) of
        (l, h) \<Rightarrow> m\<lparr>oplog := l, maps := h\<rparr>)"

text \<open>
  \<^verbatim>\<open>Reader.Close\<close> of the reader at address \<open>r\<close>: the range loop over \<^verbatim>\<open>r.m.readers\<close> from index
  \<open>idx\<close> on. At the first element equal to \<open>r\<close> it calls \<^verbatim>\<open>remove\<close>, drops the slice that
  \<^verbatim>\<open>remove\<close> returns, and breaks; \<^verbatim>\<open>r.m.readers\<close> keeps its length and sees the write into
  the backing array. No statement of \<^verbatim>\<open>Close\<close> assigns the field \<^verbatim>\<open>closed\<close>.
\<close>

function Close_loop :: "nat \<Rightarrow> nat list \<Rightarrow> nat \<Rightarrow> error + nat list" where
  "Close_loop r s idx =
     (if idx < length s
      then (if s ! idx = r
            then (case remove s idx of
                    Inl e \<Rightarrow> Inl e
                  | Inr (backing, shortened) \<Rightarrow> Inr backing)
            else Close_loop r s (idx + 1))
      else Inr s)"
  by pat_completeness auto
termination
  by (relation "measure (\<lambda>(r, s, idx). length s - idx)") auto

declare Close_loop.simps [simp del]

definition Reader_Close :: "nat \<Rightarrow> ('k, 'v) RMap \<Rightarrow> error + ('k, 'v) RMap" where
  "Reader_Close r m =
     (case Close_loop r (readers m) 0 of
        Inl e \<Rightarrow> Inl e
      | Inr s \<Rightarrow> Inr (m\<lparr>readers := s\<rparr>))"

text \<open>The calls a client can make on this engine, and runs of such calls. A call that panics
  leaves the state as it was.\<close>

datatype ('k, 'v) mutation = DoInsert 'k "'v ptr" | DoDelete 'k | DoClear

datatype ('k, 'v) rcall = Mutate "('k, 'v) mutation" | DoRefresh | DoReader | DoClose nat

fun RMap_mutate :: "('k, 'v) mutation \<Rightarrow> ('k, 'v) RMap \<Rightarrow> ('k, 'v) RMap" where
  "RMap_mutate (DoInsert key val) m = RMap_Insert key val m"
| "RMap_mutate (DoDelete key) m = snd (RMap_Delete key m)"
| "RMap_mutate DoClear m = RMap_Clear m"

fun RMap_call :: "('k, 'v) rcall \<Rightarrow> ('k, 'v) RMap \<Rightarrow> ('k, 'v) RMap" where
  "RMap_call (Mutate w) m = RMap_mutate w m"
| "RMap_call DoRefresh m = RMap_Refresh m"
| "RMap_call DoReader m = snd (RMap_Reader m)"
| "RMap_call (DoClose r) m = (case Reader_Close r m of Inl e \<Rightarrow> m | Inr m' \<Rightarrow> m')"

fun RMap_mutations :: "('k, 'v) mutation list \<Rightarrow> ('k, 'v) RMap \<Rightarrow> ('k, 'v) RMap" where
  "RMap_mutations [] m = m"
| "RMap_mutations (w # ws) m = RMap_mutations ws (RMap_mutate w m)"

fun RMap_run :: "('k, 'v) rcall list \<Rightarrow> ('k, 'v) RMap \<Rightarrow> ('k, 'v) RMap" where
  "RMap_run [] m = m"
| "RMap_run (c # cs) m = RMap_run cs (RMap_call c m)"

section \<open>The engine with automatic refresh (src/map.go)\<close>

text \<open>
  \<open>LMap\<close> is the revision of src/map.go: no registry, and the two counters of Go type
  \<^verbatim>\<open>int\<close>, 64 bits wide with signed comparison. \<^verbatim>\<open>Options\<close> and \<^verbatim>\<open>OptionFunc\<close> are those of the
  options file.
\<close>

record Options =
  MaxReplicationWriteLag :: "64 word"

type_synonym OptionFunc = "Options \<Rightarrow> Options"

definition WithMaxReplicationWriteLag :: "64 word \<Rightarrow> OptionFunc" where
  "WithMaxReplicationWriteLag writes = (\<lambda>options. options\<lparr>MaxReplicationWriteLag := writes\<rparr>)"

record ('k, 'v) LMap = "('k, 'v) MapCore" +
  replicationWriteLag :: "64 word"
  maxReplicationWriteLag :: "64 word"

text \<open>The loop \<^verbatim>\<open>for _, fn := range options { fn(&opts) }\<close>.\<close>

fun applyOptions :: "OptionFunc list \<Rightarrow> Options \<Rightarrow> Options" where
  "applyOptions [] opts = opts"
| "applyOptions (fn # fns) opts = applyOptions fns (fn opts)"

text \<open>\<^verbatim>\<open>init\<close> on the zero value of the struct: the map object \<^verbatim>\<open>r\<close> at address 0, \<^verbatim>\<open>w\<close> at
  address 1, a new log; the counters keep their zero value.\<close>

definition LMap_init :: "('k, 'v) LMap" where
  "LMap_init =
     \<lparr>readable = 0, writable = 1, oplog = NewLog, maps = (\<lambda>_. Map.empty),
      replicationWriteLag = 0, maxReplicationWriteLag = 0\<rparr>"

definition LMap_NewMap :: "OptionFunc list \<Rightarrow> ('k, 'v) LMap" where
  "LMap_NewMap options =
     (let m = LMap_init;
          opts = applyOptions options \<lparr>MaxReplicationWriteLag = 0\<rparr>
      in m\<lparr>maxReplicationWriteLag := MaxReplicationWriteLag opts\<rparr>)"

definition swap :: "('k, 'v) LMap \<Rightarrow> ('k, 'v) LMap" where
  "swap m =
     (let readable0 = readable m;
          writable0 = writable m;
          (writable1, ret1) = SwapPointer writable0 readable0;
          m1 = m\<lparr>readable := ret1\<rparr>;
          (readable1, ret2) = SwapPointer readable0 writable1
      in m1\<lparr>writable := ret2\<rparr>)"

definition sync :: "('k, 'v) LMap \<Rightarrow> ('k, 'v) LMap" where
  "sync m =
     (let m1 = m\<lparr>maps := Log_Apply (oplog m) (writable m) (maps m)\<rparr>
      in m1\<lparr>oplog := Log_Clear (oplog m1)\<rparr>)"

definition LMap_Refresh :: "('k, 'v) LMap \<Rightarrow> ('k, 'v) LMap" where
  "LMap_Refresh m = (sync (swap m))\<lparr>replicationWriteLag := 0\<rparr>"

definition observeWrite :: "('k, 'v) LMap \<Rightarrow> ('k, 'v) LMap" where
  "observeWrite m =
     (let m1 = m\<lparr>replicationWriteLag := replicationWriteLag m + 1\<rparr>
      in if 0 <s maxReplicationWriteLag m1 \<and> maxReplicationWriteLag m1 <s replicationWriteLag m1
         then LMap_Refresh m1
         else m1)"

text \<open>In the three mutation methods the deferred \<^verbatim>\<open>observeWrite\<close> runs after the body; the
  result of \<^verbatim>\<open>Delete\<close> is fixed by its \<^verbatim>\<open>return ok\<close> before that.\<close>

definition LMap_Insert :: "'k \<Rightarrow> 'v ptr \<Rightarrow> ('k, 'v) LMap \<Rightarrow> ('k, 'v) LMap" where
  "LMap_Insert key val m =
     (case Log_PushAndApply (Insert key val) (writable m) (oplog m, maps m) of
        (l, h) \<Rightarrow> observeWrite (m\<lparr>oplog := l, maps := h\<rparr>))"

definition LMap_Delete :: "'k \<Rightarrow> ('k, 'v) LMap \<Rightarrow> bool \<times> ('k, 'v) LMap" where
  "LMap_Delete key m =
     (let ok = snd (index (maps m (writable m)) key)
      in case Log_PushAndApply (Delete key) (writable m) (oplog m, maps m) of
           (l, h) \<Rightarrow> (ok, observeWrite (m\<lparr>oplog := l, maps := h\<rparr>)))"

definition LMap_Clear :: "('k, 'v) LMap \<Rightarrow> ('k, 'v) LMap" where
  "LMap_Clear m =
     (case Log_PushAndApply Clear (writable m) (oplog m, maps m) of
        (l, h) \<Rightarrow> observeWrite (m\<lparr>oplog := l, maps := h\<rparr>))"


definition LMap_Get :: "('k, 'v) LMap \<Rightarrow> 'k \<Rightarrow> 'v ptr \<times> bool" where
  "LMap_Get m key = index (maps m (readable m)) key"

datatype ('k, 'v) lcall = LMutate "('k, 'v) mutation" | LRefresh

fun LMap_mutate :: "('k, 'v) mutation \<Rightarrow> ('k, 'v) LMap \<Rightarrow> ('k, 'v) LMap" where
  "LMap_mutate (DoInsert key val) m = LMap_Insert key val m"
| "LMap_mutate (DoDelete key) m = snd (LMap_Delete key m)"
| "LMap_mutate DoClear m = LMap_Clear m"

fun LMap_call :: "('k, 'v) lcall \<Rightarrow> ('k, 'v) LMap \<Rightarrow> ('k, 'v) LMap" where
  "LMap_call (LMutate w) m = LMap_mutate w m"
| "LMap_call LRefresh m = LMap_Refresh m"

fun LMap_run :: "('k, 'v) lcall list \<Rightarrow> ('k, 'v) LMap \<Rightarrow> ('k, 'v) LMap" where
  "LMap_run [] m = m"
| "LMap_run (c # cs) m = LMap_run cs (LMap_call c m)"

section \<open>Invariants, calls and states used in the statements\<close>

text \<open>
  \<open>core_inv\<close>: the two pointers refer to different map objects, and replaying the log on the
  readable object gives the contents of the writable one. \<open>readers_inv\<close>: every pointer in
  the registry refers to an allocated reader object, whose pointer is the engine's readable
  pointer and whose \<^verbatim>\<open>closed\<close> flag is unset. \<open>entry_of\<close> is the log entry a mutation call
  builds.
\<close>

definition core_inv :: "('k, 'v, 'z) MapCore_scheme \<Rightarrow> bool" where
  "core_inv m \<longleftrightarrow>
     readable m \<noteq> writable m \<and>
     Log_Apply (oplog m) (readable m) (maps m) (readable m) = maps m (writable m)"

definition readers_inv :: "('k, 'v) RMap \<Rightarrow> bool" where
  "readers_inv m \<longleftrightarrow>
     (\<forall>r \<in> set (readers m).
        r < length (rheap m) \<and> rd_readable (rheap m ! r) = readable m \<and> \<not> closed (rheap m ! r))"

fun entry_of :: "('k, 'v) mutation \<Rightarrow> ('k, 'v) entry" where
  "entry_of (DoInsert key val) = Insert key val"
| "entry_of (DoDelete key) = Delete key"
| "entry_of DoClear = Clear"

text \<open>The state of a mutation method when its deferred \<^verbatim>\<open>observeWrite\<close> starts.\<close>

definition pushed :: "('k, 'v) entry \<Rightarrow> ('k, 'v) LMap \<Rightarrow> ('k, 'v) LMap" where
  "pushed e m =
     (case Log_PushAndApply e (writable m) (oplog m, maps m) of
        (l, h) \<Rightarrow> m\<lparr>oplog := l, maps := h\<rparr>)"

text \<open>\<open>crosses m\<close>: the test of \<^verbatim>\<open>observeWrite\<close> succeeds on \<open>m\<close>, after its increment of the
  counter.\<close>

definition crosses :: "('k, 'v) LMap \<Rightarrow> bool" where
  "crosses m \<longleftrightarrow>
     0 <s maxReplicationWriteLag m \<and> maxReplicationWriteLag m <s replicationWriteLag m + 1"

text \<open>A concrete state of the engine with automatic refresh: threshold 1, one insert made
  (the counter is 1, which does not exceed the threshold, so no refresh has run).\<close>

definition lag1_one_insert :: "(nat, nat) LMap" where
  "lag1_one_insert = LMap_Insert 7 (Some 10) (LMap_NewMap [WithMaxReplicationWriteLag 1])"

text \<open>
  \<open>inserts_key key w\<close>: the mutation call \<open>w\<close> is an \<^verbatim>\<open>Insert\<close> of \<open>key\<close>; \<open>rcall_inserts\<close> and
  \<open>lcall_inserts\<close> lift it to the calls of the two revisions. \<open>absent key m\<close>: neither map
  object holds \<open>key\<close> and no entry of the log inserts it.
\<close>

fun inserts_key :: "'k \<Rightarrow> ('k, 'v) mutation \<Rightarrow> bool" where
  "inserts_key key (DoInsert k val) = (k = key)"
| "inserts_key key (DoDelete k) = False"
| "inserts_key key DoClear = False"

fun rcall_inserts :: "'k \<Rightarrow> ('k, 'v) rcall \<Rightarrow> bool" where
  "rcall_inserts key (Mutate w) = inserts_key key w"
| "rcall_inserts key DoRefresh = False"
| "rcall_inserts key DoReader = False"
| "rcall_inserts key (DoClose r) = False"

fun lcall_inserts :: "'k \<Rightarrow> ('k, 'v) lcall \<Rightarrow> bool" where
  "lcall_inserts key (LMutate w) = inserts_key key w"
| "lcall_inserts key LRefresh = False"

definition absent :: "'k \<Rightarrow> ('k, 'v, 'z) MapCore_scheme \<Rightarrow> bool" where
  "absent key m \<longleftrightarrow>
     maps m (readable m) key = None \<and> maps m (writable m) key = None \<and>
     (\<forall>val. Insert key val \<notin> set (entries (oplog m)))"

section \<open>The operation log replays in insertion order\<close>

lemma applyEntry_spec: "applyEntry e m h = h(m := spec_replay_entry (h m) e)"
proof (cases e)
  case (Insert key val)
  then show ?thesis by (simp add: applyEntry_def spec_replay_entry_def)
next
  case (Delete key)
  have "(h m)(key := None) = (if key \<in> dom (h m) then h m |` (- {key}) else h m)"
    by (rule ext) (auto simp: restrict_map_def domIff)
  with Delete show ?thesis by (simp add: applyEntry_def spec_replay_entry_def)
next
  case Clear
  have "h m |` (- dom (h m)) = Map.empty"
    by (rule ext) (auto simp: restrict_map_def)
  with Clear show ?thesis by (simp add: applyEntry_def spec_replay_entry_def)
qed

lemma applyEntries_spec: "applyEntries es m h = h(m := foldl spec_replay_entry (h m) es)"
proof (induction es arbitrary: h)
  case Nil
  show ?case by simp
next
  case (Cons e es)
  show ?case by (rule ext) (simp add: Cons.IH applyEntry_spec)
qed

text \<open>
  Claim C8. For every operation log, every target map and every store, \<^verbatim>\<open>Log.Apply\<close> changes
  the target map object only, and its new contents are the entries replayed from first to
  last in the specification's reading: Insert sets or overwrites, Delete removes a present
  key and is a no-op on an absent one, Clear removes every key currently in the target.
\<close>

theorem Log_Apply_replays_in_order:
  "Log_Apply l m h = h(m := spec_replay (entries l) (h m))"
  by (simp add: Log_Apply_def spec_replay_def applyEntries_spec)

section \<open>Field-wise effect of the engine with the registry\<close>

lemma Log_Apply_at: "Log_Apply l a h a = foldl spec_replay_entry (h a) (entries l)"
  by (simp add: Log_Apply_def applyEntries_spec)

lemma Log_Apply_other: "b \<noteq> a \<Longrightarrow> Log_Apply l a h b = h b"
  by (simp add: Log_Apply_def applyEntries_spec)

lemma applyEntry_at: "applyEntry e a h a = spec_replay_entry (h a) e"
  by (simp add: applyEntry_spec)

lemma applyEntry_other: "b \<noteq> a \<Longrightarrow> applyEntry e a h b = h b"
  by (simp add: applyEntry_spec)

lemma swapLocked_fields:
  "readable (swapLocked m) = writable m" "writable (swapLocked m) = readable m"
  "oplog (swapLocked m) = oplog m" "maps (swapLocked m) = maps m"
  "readers (swapLocked m) = readers m" "rheap (swapLocked m) = rheap m"
  by (simp_all add: swapLocked_def SwapPointer_def)

lemma syncLocked_fields:
  "readable (syncLocked m) = readable m" "writable (syncLocked m) = writable m"
  "entries (oplog (syncLocked m)) = []"
  "maps (syncLocked m) = Log_Apply (oplog m) (writable m) (maps m)"
  "readers (syncLocked m) = readers m" "rheap (syncLocked m) = rheap m"
  by (simp_all add: syncLocked_def Log_Clear_def)

lemma RMap_Refresh_fields:
  "readable (RMap_Refresh m) = writable m" "writable (RMap_Refresh m) = readable m"
  "entries (oplog (RMap_Refresh m)) = []"
  "maps (RMap_Refresh m) = Log_Apply (oplog m) (readable m) (maps m)"
  "readers (RMap_Refresh m) = readers m"
  "rheap (RMap_Refresh m) = swapReaders (readers m) (writable m) (rheap m)"
  by (simp_all add: RMap_Refresh_def Let_def syncLocked_fields swapLocked_fields)

lemma RMap_Insert_fields:
  "readable (RMap_Insert key val m) = readable m" "writable (RMap_Insert key val m) = writable m"
  "entries (oplog (RMap_Insert key val m)) = entries (oplog m) @ [Insert key val]"
  "maps (RMap_Insert key val m) = applyEntry (Insert key val) (writable m) (maps m)"
  "readers (RMap_Insert key val m) = readers m" "rheap (RMap_Insert key val m) = rheap m"
  by (simp_all add: RMap_Insert_def Log_PushAndApply_def)

lemma RMap_Delete_fields:
  "fst (RMap_Delete key m) = snd (index (maps m (writable m)) key)"
  "readable (snd (RMap_Delete key m)) = readable m" "writable (snd (RMap_Delete key m)) = writable m"
  "entries (oplog (snd (RMap_Delete key m))) = entries (oplog m) @ [Delete key]"
  "maps (snd (RMap_Delete key m)) = applyEntry (Delete key) (writable m) (maps m)"
  "readers (snd (RMap_Delete key m)) = readers m" "rheap (snd (RMap_Delete key m)) = rheap m"
  by (simp_all add: RMap_Delete_def Log_PushAndApply_def Let_def)

lemma RMap_Clear_fields:
  "readable (RMap_Clear m) = readable m" "writable (RMap_Clear m) = writable m"
  "entries (oplog (RMap_Clear m)) = entries (oplog m) @ [Clear]"
  "maps (RMap_Clear m) = applyEntry Clear (writable m) (maps m)"
  "readers (RMap_Clear m) = readers m" "rheap (RMap_Clear m) = rheap m"
  by (simp_all add: RMap_Clear_def Log_PushAndApply_def)

lemma RMap_mutate_fields:
  "readable (RMap_mutate w m) = readable m" "writable (RMap_mutate w m) = writable m"
  "entries (oplog (RMap_mutate w m)) = entries (oplog m) @ [entry_of w]"
  "maps (RMap_mutate w m) = applyEntry (entry_of w) (writable m) (maps m)"
  "readers (RMap_mutate w m) = readers m" "rheap (RMap_mutate w m) = rheap m"
  by (cases w; simp add: RMap_Insert_fields RMap_Delete_fields RMap_Clear_fields)+

lemma RMap_Reader_fields:
  "fst (RMap_Reader m) = length (rheap m)"
  "readable (snd (RMap_Reader m)) = readable m" "writable (snd (RMap_Reader m)) = writable m"
  "oplog (snd (RMap_Reader m)) = oplog m" "maps (snd (RMap_Reader m)) = maps m"
  "readers (snd (RMap_Reader m)) = readers m @ [length (rheap m)]"
  "rheap (snd (RMap_Reader m)) = rheap m @ [NewReader (readable m)]"
  by (simp_all add: RMap_Reader_def Let_def)

lemma Close_loop_result:
  "\<exists>s'. Close_loop r s idx = Inr s' \<and> length s' = length s \<and> set s' \<subseteq> set s
      \<and> (\<forall>x \<in> set s. x \<noteq> r \<longrightarrow> x \<in> set s')"
proof (induction r s idx rule: Close_loop.induct)
  case (1 r s idx)
  show ?case
  proof (cases "idx < length s")
    case False
    then show ?thesis by (simp add: Close_loop.simps)
  next
    case inr: True
    show ?thesis
    proof (cases "s ! idx = r")
      case False
      with inr 1 show ?thesis by (simp add: Close_loop.simps [of r s idx])
    next
      case True
      have l: "length s - 1 < length s" using inr by simp
      have a: "set (s[idx := s ! (length s - 1)]) \<subseteq> set s"
        using inr l by (meson nth_mem set_update_subsetI subset_refl)
      have b: "\<forall>x \<in> set s. x \<noteq> r \<longrightarrow> x \<in> set (s[idx := s ! (length s - 1)])"
      proof (intro ballI impI)
        fix x assume "x \<in> set s" "x \<noteq> r"
        then obtain j where j: "j < length s" "s ! j = x" by (auto simp: in_set_conv_nth)
        with True \<open>x \<noteq> r\<close> have "j \<noteq> idx" by auto
        with j have "s[idx := s ! (length s - 1)] ! j = x" by simp
        with j show "x \<in> set (s[idx := s ! (length s - 1)])"
          by (metis length_list_update nth_mem)
      qed
      from inr True a b show ?thesis
        by (simp add: Close_loop.simps [of r s idx] remove_def Let_def)
    qed
  qed
qed

lemma Reader_Close_result:
  "\<exists>s'. Reader_Close r m = Inr (m\<lparr>readers := s'\<rparr>) \<and> length s' = length (readers m)
      \<and> set s' \<subseteq> set (readers m) \<and> (\<forall>x \<in> set (readers m). x \<noteq> r \<longrightarrow> x \<in> set s')"
proof -
  obtain s' where "Close_loop r (readers m) 0 = Inr s'" "length s' = length (readers m)"
    "set s' \<subseteq> set (readers m)" "\<forall>x \<in> set (readers m). x \<noteq> r \<longrightarrow> x \<in> set s'"
    using Close_loop_result [of r "readers m" 0] by blast
  then show ?thesis by (auto simp: Reader_Close_def)
qed


lemma swapReaders_length: "length (swapReaders rs a rh) = length rh"
  by (induction rs arbitrary: rh) simp_all

lemma swapReaders_nth:
  "r < length rh \<Longrightarrow>
   swapReaders rs a rh ! r = (if r \<in> set rs then swapReadable (rh ! r) a else rh ! r)"
proof (induction rs arbitrary: rh)
  case Nil
  show ?case by simp
next
  case (Cons x rs)
  have len: "r < length (rh[x := swapReadable (rh ! x) a])" using Cons.prems by simp
  have "swapReaders (x # rs) a rh ! r = swapReaders rs a (rh[x := swapReadable (rh ! x) a]) ! r"
    by simp
  also have "\<dots> = (if r \<in> set rs then swapReadable (rh[x := swapReadable (rh ! x) a] ! r) a
                     else rh[x := swapReadable (rh ! x) a] ! r)"
    by (rule Cons.IH [OF len])
  also have "\<dots> = (if r \<in> set (x # rs) then swapReadable (rh ! r) a else rh ! r)"
    using Cons.prems by (cases "x = r") (simp_all add: swapReadable_def)
  finally show ?case .
qed

lemma core_inv_push:
  assumes "core_inv (m :: ('k, 'v, 'z) MapCore_scheme)"
    and "readable m' = readable m" and "writable m' = writable m"
    and "entries (oplog m') = entries (oplog m) @ [e]"
    and "maps m' = applyEntry e (writable m) (maps m)"
  shows "core_inv (m' :: ('k, 'v, 'y) MapCore_scheme)"
  using assms by (simp add: core_inv_def Log_Apply_at applyEntry_at applyEntry_other)

lemma core_inv_refresh:
  assumes "core_inv (m :: ('k, 'v, 'z) MapCore_scheme)"
    and "readable m' = writable m" and "writable m' = readable m"
    and "entries (oplog m') = []"
    and "maps m' = Log_Apply (oplog m) (readable m) (maps m)"
  shows "core_inv (m' :: ('k, 'v, 'y) MapCore_scheme)"
    and "maps m' (readable m') = maps m (writable m)"
    and "maps m' (writable m') = maps m (writable m)"
  using assms by (auto simp: core_inv_def Log_Apply_at Log_Apply_other)

lemma core_inv_RMap_NewMap: "core_inv RMap_NewMap"
  by (simp add: core_inv_def RMap_NewMap_def Log_Apply_at NewLog_def)

lemma readers_inv_RMap_NewMap: "readers_inv RMap_NewMap"
  by (simp add: readers_inv_def RMap_NewMap_def)

lemma core_inv_RMap_call: "core_inv m \<Longrightarrow> core_inv (RMap_call c m)"
proof (cases c)
  case (Mutate w)
  assume "core_inv m"
  then show ?thesis unfolding Mutate RMap_call.simps
    by (rule core_inv_push) (simp_all add: RMap_mutate_fields)
next
  case DoRefresh
  assume "core_inv m"
  then show ?thesis unfolding DoRefresh RMap_call.simps
    by (rule core_inv_refresh) (simp_all add: RMap_Refresh_fields)
next
  case DoReader
  assume "core_inv m"
  then show ?thesis by (simp add: DoReader core_inv_def RMap_Reader_fields)
next
  case (DoClose r)
  assume "core_inv m"
  moreover obtain s' where "Reader_Close r m = Inr (m\<lparr>readers := s'\<rparr>)"
    using Reader_Close_result [of r m] by blast
  ultimately show ?thesis by (simp add: DoClose core_inv_def)
qed

lemma readers_inv_RMap_call: "readers_inv m \<Longrightarrow> readers_inv (RMap_call c m)"
proof (cases c)
  case (Mutate w)
  assume "readers_inv m"
  then show ?thesis by (simp add: Mutate readers_inv_def RMap_mutate_fields)
next
  case DoRefresh
  assume "readers_inv m"
  then show ?thesis
    by (simp add: DoRefresh readers_inv_def RMap_Refresh_fields swapReaders_length
        swapReaders_nth swapReadable_def)
next
  case DoReader
  assume "readers_inv m"
  then show ?thesis
    by (auto simp: DoReader readers_inv_def RMap_Reader_fields nth_append NewReader_def)
next
  case (DoClose r)
  assume "readers_inv m"
  moreover obtain s' where "Reader_Close r m = Inr (m\<lparr>readers := s'\<rparr>)" "set s' \<subseteq> set (readers m)"
    using Reader_Close_result [of r m] by blast
  ultimately show ?thesis by (auto simp: DoClose readers_inv_def)
qed

lemma RMap_run_inv:
  "core_inv m \<Longrightarrow> readers_inv m \<Longrightarrow> core_inv (RMap_run cs m) \<and> readers_inv (RMap_run cs m)"
  by (induction cs arbitrary: m) (simp_all add: core_inv_RMap_call readers_inv_RMap_call)

lemmas RMap_reachable_inv = RMap_run_inv [OF core_inv_RMap_NewMap readers_inv_RMap_NewMap]

lemma RMap_Refresh_reader:
  assumes "core_inv m" and "readers_inv m" and "r \<in> set (readers m)"
  shows "Reader_Get (rheap (RMap_Refresh m) ! r) (maps (RMap_Refresh m)) key
           = Inr (index (maps m (writable m)) key)"
    and "Reader_Has (rheap (RMap_Refresh m) ! r) (maps (RMap_Refresh m)) key
           = Inr (key \<in> dom (maps m (writable m)))"
proof -
  from assms have r: "r < length (rheap m)" "\<not> closed (rheap m ! r)"
    and ne: "writable m \<noteq> readable m"
    by (auto simp: readers_inv_def core_inv_def)
  have rd: "rheap (RMap_Refresh m) ! r = swapReadable (rheap m ! r) (writable m)"
    using r assms(3) by (simp add: RMap_Refresh_fields swapReaders_nth)
  have mp: "maps (RMap_Refresh m) (writable m) = maps m (writable m)"
    using ne by (simp add: RMap_Refresh_fields Log_Apply_other)
  show "Reader_Get (rheap (RMap_Refresh m) ! r) (maps (RMap_Refresh m)) key
           = Inr (index (maps m (writable m)) key)"
    using r by (simp add: rd mp Reader_Get_def swapReadable_def)
  show "Reader_Has (rheap (RMap_Refresh m) ! r) (maps (RMap_Refresh m)) key
           = Inr (key \<in> dom (maps m (writable m)))"
    using r by (auto simp: rd mp Reader_Has_def swapReadable_def index_def split: option.splits)
qed

text \<open>A reader is in the registry from the call of \<^verbatim>\<open>Map.Reader\<close> that made it, and no call
  other than its own \<^verbatim>\<open>Close\<close> takes it out.\<close>

lemma Reader_registers: "fst (RMap_Reader m) \<in> set (readers (snd (RMap_Reader m)))"
  by (simp add: RMap_Reader_fields)

lemma registered_until_closed:
  assumes "r \<in> set (readers m)" and "c \<noteq> DoClose r"
  shows "r \<in> set (readers (RMap_call c m))"
proof (cases c)
  case (Mutate w)
  with assms(1) show ?thesis by (simp add: RMap_mutate_fields)
next
  case DoRefresh
  with assms(1) show ?thesis by (simp add: RMap_Refresh_fields)
next
  case DoReader
  with assms(1) show ?thesis by (simp add: RMap_Reader_fields)
next
  case (DoClose x)
  with assms(2) have ne: "r \<noteq> x" by simp
  obtain s' where s': "Reader_Close x m = Inr (m\<lparr>readers := s'\<rparr>)"
    "\<forall>y \<in> set (readers m). y \<noteq> x \<longrightarrow> y \<in> set s'"
    using Reader_Close_result [of x m] by blast
  from s'(2) assms(1) ne have "r \<in> set s'" by blast
  with s'(1) show ?thesis by (simp add: DoClose)
qed

section \<open>Eventual visibility\<close>

text \<open>
  Claim C1. For the engine with the registry, in the state after any run of calls
  (mutations, refreshes, registrations, closes) from \<^verbatim>\<open>NewMap\<close>, and for every reader handle
  that is in the registry when \<^verbatim>\<open>Refresh\<close> is called: after the refresh the handle's \<^verbatim>\<open>Get\<close>
  returns, for every key, the result of indexing the map that was writable immediately
  before the refresh, and its \<^verbatim>\<open>Has\<close> tells whether the key was in that map.
\<close>

theorem refresh_exposes_writable_to_registered_readers:
  assumes "r \<in> set (readers (RMap_run cs RMap_NewMap))"
  shows "(let m = RMap_run cs RMap_NewMap; m' = RMap_Refresh m in
            Reader_Get (rheap m' ! r) (maps m') key = Inr (index (maps m (writable m)) key)
          \<and> Reader_Has (rheap m' ! r) (maps m') key = Inr (key \<in> dom (maps m (writable m))))"
  using RMap_Refresh_reader [OF conjunct1 [OF RMap_reachable_inv] conjunct2 [OF RMap_reachable_inv] assms]
  by (simp add: Let_def)

theorem refresh_exposes_writable_witness:
  "0 \<in> set (readers (RMap_run [DoReader, Mutate (DoInsert 1 (Some 10))] (RMap_NewMap :: (nat, nat) RMap)))
   \<and> (let m = RMap_run [DoReader, Mutate (DoInsert 1 (Some 10))] (RMap_NewMap :: (nat, nat) RMap);
          m' = RMap_Refresh m in
        Reader_Get (rheap m' ! 0) (maps m') 1 = Inr (Some 10, True)
      \<and> Reader_Has (rheap m' ! 0) (maps m') 1 = Inr True)"
proof -
  have h: "0 \<in> set (readers (RMap_run [DoReader, Mutate (DoInsert 1 (Some 10))] (RMap_NewMap :: (nat, nat) RMap)))"
    by (simp add: RMap_Insert_fields RMap_Reader_fields RMap_NewMap_def)
  show ?thesis
    using h refresh_exposes_writable_to_registered_readers [OF h, of 1]
    by (simp add: Let_def RMap_Insert_fields RMap_Reader_fields RMap_NewMap_def applyEntry_def index_def)
qed

section \<open>Read isolation\<close>

lemma RMap_mutations_frame:
  "readable (RMap_mutations ws m) = readable m"
  "writable (RMap_mutations ws m) = writable m"
  "readers (RMap_mutations ws m) = readers m"
  "rheap (RMap_mutations ws m) = rheap m"
  by (induction ws arbitrary: m) (simp_all add: RMap_mutate_fields)

lemma RMap_mutations_maps_other:
  "a \<noteq> writable m \<Longrightarrow> maps (RMap_mutations ws m) a = maps m a"
  by (induction ws arbitrary: m) (simp_all add: RMap_mutate_fields applyEntry_other)

lemma RMap_mutations_log:
  "entries (oplog (RMap_mutations ws m)) = entries (oplog m) @ map entry_of ws"
  by (induction ws arbitrary: m) (simp_all add: RMap_mutate_fields)

lemma RMap_reader_reads_readable:
  assumes "readers_inv m" and "r \<in> set (readers m)"
  shows "Reader_Get (rheap m ! r) (maps m) key = Inr (index (maps m (readable m)) key)"
    and "Reader_Has (rheap m ! r) (maps m) key = Inr (key \<in> dom (maps m (readable m)))"
  using assms by (auto simp: readers_inv_def Reader_Get_def Reader_Has_def index_def split: option.splits)

text \<open>
  Claim C3. For the engine with the registry, in the state after any run of calls from
  \<^verbatim>\<open>NewMap\<close>, for every reader handle in the registry and every sequence of \<^verbatim>\<open>Insert\<close>,
  \<^verbatim>\<open>Delete\<close> and \<^verbatim>\<open>Clear\<close> calls with no refresh among or after them: the handle's \<^verbatim>\<open>Get\<close> and
  \<^verbatim>\<open>Has\<close> return for every key what they returned before the mutations (the stale value), and
  \<^verbatim>\<open>Has\<close> is true only of the keys of the readable map as it was before them; a key that only
  those mutations touched is reported absent.
\<close>

theorem mutations_invisible_to_registered_readers:
  assumes "r \<in> set (readers (RMap_run cs RMap_NewMap))"
  shows "(let m = RMap_run cs RMap_NewMap; m' = RMap_mutations ws m in
            Reader_Get (rheap m' ! r) (maps m') key = Reader_Get (rheap m ! r) (maps m) key
          \<and> Reader_Has (rheap m' ! r) (maps m') key = Reader_Has (rheap m ! r) (maps m) key
          \<and> Reader_Has (rheap m' ! r) (maps m') key = Inr (key \<in> dom (maps m (readable m))))"
proof -
  define m where "m = RMap_run cs (RMap_NewMap :: ('a, 'b) RMap)"
  have ci: "core_inv m" and ri: "readers_inv m"
    using RMap_reachable_inv [of cs] by (simp_all add: m_def)
  have r: "r \<in> set (readers m)" using assms by (simp add: m_def)
  have ne: "readable m \<noteq> writable m" using ci by (simp add: core_inv_def)
  have ri': "readers_inv (RMap_mutations ws m)"
    using ri ne by (simp add: readers_inv_def RMap_mutations_frame)
  have r': "r \<in> set (readers (RMap_mutations ws m))" using r by (simp add: RMap_mutations_frame)
  have same: "maps (RMap_mutations ws m) (readable m) = maps m (readable m)"
    using ne by (rule RMap_mutations_maps_other)
  have after: "Reader_Get (rheap (RMap_mutations ws m) ! r) (maps (RMap_mutations ws m)) key
                 = Inr (index (maps m (readable m)) key)"
      "Reader_Has (rheap (RMap_mutations ws m) ! r) (maps (RMap_mutations ws m)) key
                 = Inr (key \<in> dom (maps m (readable m)))"
    using RMap_reader_reads_readable [OF ri' r', of key]
    by (simp_all only: RMap_mutations_frame same)
  show ?thesis
    unfolding m_def [symmetric] Let_def
    by (simp only: after RMap_reader_reads_readable [OF ri r] simp_thms)
qed

theorem mutations_invisible_witness:
  "0 \<in> set (readers (RMap_run [DoReader] (RMap_NewMap :: (nat, nat) RMap)))
   \<and> (let m = RMap_run [DoReader] (RMap_NewMap :: (nat, nat) RMap);
          m' = RMap_mutations [DoInsert 1 (Some 10), DoDelete 2, DoClear, DoInsert 3 None] m in
        Reader_Get (rheap m' ! 0) (maps m') 3 = Inr (None, False)
      \<and> Reader_Has (rheap m' ! 0) (maps m') 3 = Inr False)"
proof -
  have h: "0 \<in> set (readers (RMap_run [DoReader] (RMap_NewMap :: (nat, nat) RMap)))"
    by (simp add: RMap_Reader_fields RMap_NewMap_def)
  show ?thesis
    using h mutations_invisible_to_registered_readers [OF h,
        of "[DoInsert 1 (Some 10), DoDelete 2, DoClear, DoInsert 3 None]" 3]
    by (simp add: Let_def RMap_Insert_fields RMap_Delete_fields RMap_Clear_fields
        RMap_Reader_fields RMap_NewMap_def Reader_Get_def Reader_Has_def NewReader_def
        applyEntry_def index_def)
qed

section \<open>Field-wise effect of the engine with automatic refresh\<close>

lemma swap_fields:
  "readable (swap m) = writable m" "writable (swap m) = readable m"
  "oplog (swap m) = oplog m" "maps (swap m) = maps m"
  "replicationWriteLag (swap m) = replicationWriteLag m"
  "maxReplicationWriteLag (swap m) = maxReplicationWriteLag m"
  by (simp_all add: swap_def SwapPointer_def)

lemma sync_fields:
  "readable (sync m) = readable m" "writable (sync m) = writable m"
  "entries (oplog (sync m)) = []"
  "maps (sync m) = Log_Apply (oplog m) (writable m) (maps m)"
  "replicationWriteLag (sync m) = replicationWriteLag m"
  "maxReplicationWriteLag (sync m) = maxReplicationWriteLag m"
  by (simp_all add: sync_def Log_Clear_def)

lemma LMap_Refresh_fields:
  "readable (LMap_Refresh m) = writable m" "writable (LMap_Refresh m) = readable m"
  "entries (oplog (LMap_Refresh m)) = []"
  "maps (LMap_Refresh m) = Log_Apply (oplog m) (readable m) (maps m)"
  "replicationWriteLag (LMap_Refresh m) = 0"
  "maxReplicationWriteLag (LMap_Refresh m) = maxReplicationWriteLag m"
  by (simp_all add: LMap_Refresh_def sync_fields swap_fields)

lemma pushed_fields:
  "readable (pushed e m) = readable m" "writable (pushed e m) = writable m"
  "entries (oplog (pushed e m)) = entries (oplog m) @ [e]"
  "maps (pushed e m) = applyEntry e (writable m) (maps m)"
  "replicationWriteLag (pushed e m) = replicationWriteLag m"
  "maxReplicationWriteLag (pushed e m) = maxReplicationWriteLag m"
  by (simp_all add: pushed_def Log_PushAndApply_def)

lemma LMap_mutate_pushed: "LMap_mutate w m = observeWrite (pushed (entry_of w) m)"
  by (cases w) (simp_all add: LMap_Insert_def LMap_Delete_def LMap_Clear_def pushed_def Let_def
      split: prod.splits)

lemma LMap_Delete_pushed:
  "LMap_Delete key m = (snd (index (maps m (writable m)) key), observeWrite (pushed (Delete key) m))"
  by (simp add: LMap_Delete_def pushed_def Let_def split: prod.splits)

lemma LMap_Insert_pushed: "LMap_Insert key val m = observeWrite (pushed (Insert key val) m)"
  by (simp add: LMap_Insert_def pushed_def split: prod.splits)

lemma observeWrite_fields:
  "readable (observeWrite m) = (if crosses m then writable m else readable m)"
  "writable (observeWrite m) = (if crosses m then readable m else writable m)"
  "entries (oplog (observeWrite m)) = (if crosses m then [] else entries (oplog m))"
  "maps (observeWrite m) = (if crosses m then Log_Apply (oplog m) (readable m) (maps m) else maps m)"
  "replicationWriteLag (observeWrite m) = (if crosses m then 0 else replicationWriteLag m + 1)"
  "maxReplicationWriteLag (observeWrite m) = maxReplicationWriteLag m"
  by (simp_all add: observeWrite_def crosses_def Let_def LMap_Refresh_fields)

lemma core_inv_observeWrite:
  assumes "core_inv m" shows "core_inv (observeWrite m)"
proof (cases "crosses m")
  case True
  from assms show ?thesis
    by (rule core_inv_refresh) (simp_all add: observeWrite_fields True)
next
  case False
  with assms show ?thesis by (simp add: core_inv_def observeWrite_fields Log_Apply_at)
qed

lemma core_inv_pushed: "core_inv m \<Longrightarrow> core_inv (pushed e m)"
  by (erule core_inv_push) (simp_all add: pushed_fields)

lemma core_inv_LMap_call: "core_inv m \<Longrightarrow> core_inv (LMap_call c m)"
proof (cases c)
  case (LMutate w)
  assume "core_inv m"
  then show ?thesis
    by (simp add: LMutate LMap_mutate_pushed core_inv_observeWrite core_inv_pushed)
next
  case LRefresh
  assume "core_inv m"
  then show ?thesis unfolding LRefresh LMap_call.simps
    by (rule core_inv_refresh) (simp_all add: LMap_Refresh_fields)
qed

lemma LMap_NewMap_fields:
  "readable (LMap_NewMap options) = 0" "writable (LMap_NewMap options) = 1"
  "entries (oplog (LMap_NewMap options)) = []" "maps (LMap_NewMap options) = (\<lambda>_. Map.empty)"
  "replicationWriteLag (LMap_NewMap options) = 0"
  "maxReplicationWriteLag (LMap_NewMap options)
     = MaxReplicationWriteLag (applyOptions options \<lparr>MaxReplicationWriteLag = 0\<rparr>)"
  by (simp_all add: LMap_NewMap_def LMap_init_def Let_def NewLog_def)

lemma core_inv_LMap_NewMap: "core_inv (LMap_NewMap options)"
  by (simp add: core_inv_def LMap_NewMap_fields Log_Apply_at)

lemma LMap_run_inv: "core_inv m \<Longrightarrow> core_inv (LMap_run cs m)"
  by (induction cs arbitrary: m) (simp_all add: core_inv_LMap_call)

lemmas LMap_reachable_inv = LMap_run_inv [OF core_inv_LMap_NewMap]

section \<open>Replay equivalence\<close>

text \<open>
  Claim C2. In the state after any run of calls from \<^verbatim>\<open>NewMap\<close>, on either revision of the
  engine, applying the operation log in order to the readable map object gives exactly the
  contents of the writable one; and right after a \<^verbatim>\<open>Refresh\<close> from such a state the log is
  empty and the two map objects have the same contents, those of the map that was writable
  before the refresh.
\<close>

theorem replay_equivalence:
  "(let m = RMap_run cs RMap_NewMap; m' = RMap_Refresh m in
      Log_Apply (oplog m) (readable m) (maps m) (readable m) = maps m (writable m)
    \<and> maps m' (readable m') = maps m' (writable m')
    \<and> maps m' (writable m') = maps m (writable m)
    \<and> entries (oplog m') = [])
 \<and> (let m = LMap_run ds (LMap_NewMap options); m' = LMap_Refresh m in
      Log_Apply (oplog m) (readable m) (maps m) (readable m) = maps m (writable m)
    \<and> maps m' (readable m') = maps m' (writable m')
    \<and> maps m' (writable m') = maps m (writable m)
    \<and> entries (oplog m') = [])"
proof -
  define m where "m = RMap_run cs (RMap_NewMap :: ('a, 'b) RMap)"
  define n where "n = LMap_run ds (LMap_NewMap options :: ('c, 'd) LMap)"
  have cm: "core_inv m" using RMap_reachable_inv [of cs] by (simp add: m_def)
  have cn: "core_inv n" using LMap_reachable_inv [of ds options] by (simp add: n_def)
  have 1: "maps (RMap_Refresh m) (writable m) = maps m (writable m)"
          "maps (RMap_Refresh m) (readable m) = maps m (writable m)"
    using cm core_inv_refresh (2,3) [of m "RMap_Refresh m"] by (simp_all add: RMap_Refresh_fields)
  have 2: "maps (LMap_Refresh n) (writable n) = maps n (writable n)"
          "maps (LMap_Refresh n) (readable n) = maps n (writable n)"
    using cn core_inv_refresh (2,3) [of n "LMap_Refresh n"] by (simp_all add: LMap_Refresh_fields)
  show ?thesis
    unfolding m_def [symmetric] n_def [symmetric] Let_def
    using cm cn
    by (simp add: 1 2 core_inv_def RMap_Refresh_fields(1,2,3) LMap_Refresh_fields(1,2,3))
qed

section \<open>Delete\<close>

lemma snd_index: "snd (index g key) = (key \<in> dom g)"
  by (auto simp: index_def split: option.splits)

lemma spec_replay_Delete_absent: "spec_replay_entry g (Delete key) key = None"
  by (simp add: spec_replay_entry_def restrict_map_def domIff)

text \<open>
  Claim C7. For every key and every state of either revision of the engine, \<^verbatim>\<open>Delete\<close> returns
  true exactly when the key was in the writable map before the deletion was applied, and
  when \<^verbatim>\<open>Delete\<close> has returned (after its automatic refresh, if one ran) the key is not in the
  writable map.
\<close>

theorem Delete_reports_prior_presence:
  "fst (RMap_Delete key m) = (key \<in> dom (maps m (writable m)))
 \<and> maps (snd (RMap_Delete key m)) (writable (snd (RMap_Delete key m))) key = None
 \<and> fst (LMap_Delete key n) = (key \<in> dom (maps n (writable n)))
 \<and> maps (snd (LMap_Delete key n)) (writable (snd (LMap_Delete key n))) key = None"
proof -
  have "maps (snd (LMap_Delete key n)) (writable (snd (LMap_Delete key n))) key = None"
  proof (cases "crosses (pushed (Delete key) n)")
    case True
    then show ?thesis
      by (simp add: LMap_Delete_pushed observeWrite_fields pushed_fields Log_Apply_at
          spec_replay_Delete_absent)
  next
    case False
    then show ?thesis
      by (simp add: LMap_Delete_pushed observeWrite_fields pushed_fields applyEntry_def)
  qed
  then show ?thesis
    by (simp add: RMap_Delete_fields snd_index LMap_Delete_pushed applyEntry_def)
qed

section \<open>Automatic refresh past the threshold\<close>


lemma crosses_pushed:
  "crosses (pushed e m) \<longleftrightarrow>
     0 <s maxReplicationWriteLag m \<and> maxReplicationWriteLag m <s replicationWriteLag m + 1"
  by (simp add: crosses_def pushed_fields)

lemma LMap_Insert_fields:
  "readable (LMap_Insert key val m)
     = (if crosses (pushed (Insert key val) m) then writable m else readable m)"
  "writable (LMap_Insert key val m)
     = (if crosses (pushed (Insert key val) m) then readable m else writable m)"
  "entries (oplog (LMap_Insert key val m))
     = (if crosses (pushed (Insert key val) m) then [] else entries (oplog m) @ [Insert key val])"
  "maps (LMap_Insert key val m)
     = (if crosses (pushed (Insert key val) m)
        then Log_Apply (oplog (pushed (Insert key val) m)) (readable m)
               (applyEntry (Insert key val) (writable m) (maps m))
        else applyEntry (Insert key val) (writable m) (maps m))"
  "replicationWriteLag (LMap_Insert key val m)
     = (if crosses (pushed (Insert key val) m) then 0 else replicationWriteLag m + 1)"
  "maxReplicationWriteLag (LMap_Insert key val m) = maxReplicationWriteLag m"
  by (simp_all add: LMap_Insert_pushed observeWrite_fields pushed_fields)




section \<open>Closing a reader handle\<close>

text \<open>
  Claim C5, at a concrete run: register a reader, insert key 1, refresh, close the reader.
  \<^verbatim>\<open>Close\<close> returns normally, the reader's \<^verbatim>\<open>closed\<close> flag is still false, and \<^verbatim>\<open>Get\<close> and \<^verbatim>\<open>Has\<close>
  on the closed reader return lookup results, not the panic \<open>ReaderClosed\<close>.
\<close>

theorem Close_leaves_reader_usable:
  "(case RMap_Reader (RMap_NewMap :: (nat, nat) RMap) of (r, m1) \<Rightarrow>
      (case Reader_Close r (RMap_Refresh (RMap_Insert 1 (Some 10) m1)) of
         Inl e \<Rightarrow> False
       | Inr m2 \<Rightarrow>
           closed (rheap m2 ! r) = False
         \<and> Reader_Get (rheap m2 ! r) (maps m2) 1 = Inr (Some 10, True)
         \<and> Reader_Has (rheap m2 ! r) (maps m2) 1 = Inr True
         \<and> Reader_Get (rheap m2 ! r) (maps m2) 2 = Inr (None, False)))"
  by (simp add: RMap_Reader_def RMap_NewMap_def RMap_Insert_def RMap_Refresh_def swapLocked_def
      syncLocked_def SwapPointer_def Log_PushAndApply_def Log_Apply_def Log_Clear_def NewLog_def
      applyEntry_def Reader_Close_def Close_loop.simps remove_def NewReader_def swapReadable_def
      Reader_Get_def Reader_Has_def index_def Let_def)

text \<open>
  Claim C6, at two concrete runs. With one registered reader, and with two registered
  readers of which the one registered last is closed: after \<^verbatim>\<open>Close\<close> the registry still
  holds the closed reader (\<^verbatim>\<open>remove\<close> overwrote the last slot with itself and the shortened
  slice was dropped), and the next \<^verbatim>\<open>Refresh\<close> moves the closed reader's pointer to the new
  readable map.
\<close>

theorem Close_of_last_handle_keeps_it_registered:
  "(case RMap_Reader (RMap_NewMap :: (nat, nat) RMap) of (r, m1) \<Rightarrow>
      (case Reader_Close r m1 of
         Inl e \<Rightarrow> False
       | Inr m2 \<Rightarrow>
           readers m2 = [r]
         \<and> rd_readable (rheap m2 ! r) = 0
         \<and> rd_readable (rheap (RMap_Refresh m2) ! r) = 1
         \<and> readable (RMap_Refresh m2) = 1))
 \<and> (case RMap_Reader (RMap_NewMap :: (nat, nat) RMap) of (r0, m1) \<Rightarrow>
      (case RMap_Reader m1 of (r1, m2) \<Rightarrow>
        (case Reader_Close r1 m2 of
           Inl e \<Rightarrow> False
         | Inr m3 \<Rightarrow>
             readers m3 = [r0, r1]
           \<and> rd_readable (rheap (RMap_Refresh m3) ! r1) = readable (RMap_Refresh m3))))"
  by (simp add: RMap_Reader_def RMap_NewMap_def RMap_Insert_def RMap_Refresh_def swapLocked_def
      syncLocked_def SwapPointer_def Log_PushAndApply_def Log_Apply_def Log_Clear_def NewLog_def
      applyEntry_def Reader_Close_def Close_loop.simps remove_def NewReader_def swapReadable_def
      Let_def)

section \<open>Deleting an absent key\<close>

lemma LMap_Delete_fields:
  "fst (LMap_Delete key m) = (key \<in> dom (maps m (writable m)))"
  "readable (snd (LMap_Delete key m))
     = (if crosses (pushed (Delete key) m) then writable m else readable m)"
  "writable (snd (LMap_Delete key m))
     = (if crosses (pushed (Delete key) m) then readable m else writable m)"
  "entries (oplog (snd (LMap_Delete key m)))
     = (if crosses (pushed (Delete key) m) then [] else entries (oplog m) @ [Delete key])"
  "maps (snd (LMap_Delete key m))
     = (if crosses (pushed (Delete key) m)
        then Log_Apply (oplog (pushed (Delete key) m)) (readable m)
               (applyEntry (Delete key) (writable m) (maps m))
        else applyEntry (Delete key) (writable m) (maps m))"
  "replicationWriteLag (snd (LMap_Delete key m))
     = (if crosses (pushed (Delete key) m) then 0 else replicationWriteLag m + 1)"
  "maxReplicationWriteLag (snd (LMap_Delete key m)) = maxReplicationWriteLag m"
  by (simp_all add: LMap_Delete_pushed observeWrite_fields pushed_fields snd_index)

lemma lag1_one_insert_fields:
  "readable lag1_one_insert = 0" "writable lag1_one_insert = 1"
  "entries (oplog lag1_one_insert) = [Insert 7 (Some 10)]"
  "maps lag1_one_insert = applyEntry (Insert 7 (Some 10)) 1 (\<lambda>_. Map.empty)"
  "replicationWriteLag lag1_one_insert = 1" "maxReplicationWriteLag lag1_one_insert = 1"
  by (simp_all add: lag1_one_insert_def LMap_Insert_fields crosses_pushed LMap_NewMap_fields
      WithMaxReplicationWriteLag_def word_sless_alt)

lemma lag1_one_insert_crosses: "crosses (pushed (Delete 9) lag1_one_insert)"
  by (simp add: crosses_pushed lag1_one_insert_fields word_sless_alt)

text \<open>
  Claim C10 as stated fails when the delete crosses the threshold. In the state
  \<open>lag1_one_insert\<close> key 9 is absent from the writable map; \<^verbatim>\<open>Delete(9)\<close> raises the counter to
  2, above the threshold 1, and the deferred \<^verbatim>\<open>observeWrite\<close> refreshes: the readable map now
  holds key 7, the log does not end with the new Delete entry, and the counter is not the
  old counter plus one.
\<close>

theorem noop_Delete_can_refresh:
  "9 \<notin> dom (maps lag1_one_insert (writable lag1_one_insert))
   \<and> maps (snd (LMap_Delete 9 lag1_one_insert)) (readable (snd (LMap_Delete 9 lag1_one_insert))) 7
       \<noteq> maps lag1_one_insert (readable lag1_one_insert) 7
   \<and> entries (oplog (snd (LMap_Delete 9 lag1_one_insert)))
       \<noteq> entries (oplog lag1_one_insert) @ [Delete 9]
   \<and> replicationWriteLag (snd (LMap_Delete 9 lag1_one_insert))
       \<noteq> replicationWriteLag lag1_one_insert + 1"
proof -
  have a: "9 \<notin> dom (maps lag1_one_insert (writable lag1_one_insert))"
    by (simp add: lag1_one_insert_fields applyEntry_def)
  have b: "maps (snd (LMap_Delete 9 lag1_one_insert)) (readable (snd (LMap_Delete 9 lag1_one_insert))) 7
             = Some (Some 10)"
    by (simp add: LMap_Delete_fields lag1_one_insert_crosses lag1_one_insert_fields
        Log_Apply_other applyEntry_def)
  have c: "maps lag1_one_insert (readable lag1_one_insert) 7 = None"
    by (simp add: lag1_one_insert_fields applyEntry_def)
  have d: "entries (oplog (snd (LMap_Delete 9 lag1_one_insert))) = []"
    by (simp add: LMap_Delete_fields lag1_one_insert_crosses)
  have e: "replicationWriteLag (snd (LMap_Delete 9 lag1_one_insert)) = 0"
    by (simp add: LMap_Delete_fields lag1_one_insert_crosses)
  show ?thesis
    by (simp add: a b c d e lag1_one_insert_fields(5))
qed

lemma Delete_absent_noop: "key \<notin> dom (h a) \<Longrightarrow> applyEntry (Delete key) a h = h"
  by (rule ext) (auto simp: applyEntry_def domIff)

lemma LMap_noop_Delete:
  assumes ci: "core_inv m" and ab: "key \<notin> dom (maps m (writable m))"
  shows "fst (LMap_Delete key m) = False"
    and "maps (snd (LMap_Delete key m)) (writable (snd (LMap_Delete key m))) = maps m (writable m)"
    and "crosses (pushed (Delete key) m) \<Longrightarrow>
           maps (snd (LMap_Delete key m)) (readable (snd (LMap_Delete key m))) = maps m (writable m)
         \<and> entries (oplog (snd (LMap_Delete key m))) = []
         \<and> replicationWriteLag (snd (LMap_Delete key m)) = 0"
    and "\<not> crosses (pushed (Delete key) m) \<Longrightarrow>
           maps (snd (LMap_Delete key m)) = maps m
         \<and> readable (snd (LMap_Delete key m)) = readable m
         \<and> writable (snd (LMap_Delete key m)) = writable m
         \<and> entries (oplog (snd (LMap_Delete key m))) = entries (oplog m) @ [Delete key]
         \<and> replicationWriteLag (snd (LMap_Delete key m)) = replicationWriteLag m + 1"
proof -
  have ne: "readable m \<noteq> writable m"
    and rp: "foldl spec_replay_entry (maps m (readable m)) (entries (oplog m)) = maps m (writable m)"
    using ci by (simp_all add: core_inv_def Log_Apply_at)
  have noop: "applyEntry (Delete key) (writable m) (maps m) = maps m"
    using ab by (rule Delete_absent_noop)
  have same: "spec_replay_entry (maps m (writable m)) (Delete key) = maps m (writable m)"
    using ab by (simp add: spec_replay_entry_def)
  show "fst (LMap_Delete key m) = False"
    using ab by (simp add: LMap_Delete_fields)
  show "maps (snd (LMap_Delete key m)) (writable (snd (LMap_Delete key m))) = maps m (writable m)"
    by (simp add: LMap_Delete_fields noop Log_Apply_at pushed_fields rp same)
  show "crosses (pushed (Delete key) m) \<Longrightarrow>
           maps (snd (LMap_Delete key m)) (readable (snd (LMap_Delete key m))) = maps m (writable m)
         \<and> entries (oplog (snd (LMap_Delete key m))) = []
         \<and> replicationWriteLag (snd (LMap_Delete key m)) = 0"
    using ne by (simp add: LMap_Delete_fields noop Log_Apply_other)
  show "\<not> crosses (pushed (Delete key) m) \<Longrightarrow>
           maps (snd (LMap_Delete key m)) = maps m
         \<and> readable (snd (LMap_Delete key m)) = readable m
         \<and> writable (snd (LMap_Delete key m)) = writable m
         \<and> entries (oplog (snd (LMap_Delete key m))) = entries (oplog m) @ [Delete key]
         \<and> replicationWriteLag (snd (LMap_Delete key m)) = replicationWriteLag m + 1"
    by (simp add: LMap_Delete_fields noop)
qed

text \<open>
  Claim C10, amended. In the state after any run of calls from \<^verbatim>\<open>NewMap\<close>, for every key absent
  from the writable map, \<^verbatim>\<open>Delete\<close> returns false and leaves the contents of the writable map
  unchanged. If the test of \<^verbatim>\<open>observeWrite\<close> fails (threshold not positive, or counter plus
  one not above it), both map objects and both pointers are unchanged, one Delete entry is
  appended to the log and the counter is incremented by one. If the test succeeds, the
  automatic refresh runs inside the call: the readable map takes the contents of the
  writable map, the log is empty and the counter is zero.
\<close>

theorem noop_Delete_counts_as_a_write:
  assumes "key \<notin> dom (maps (LMap_run ds (LMap_NewMap options))
                         (writable (LMap_run ds (LMap_NewMap options))))"
  shows "(let m = LMap_run ds (LMap_NewMap options); m' = snd (LMap_Delete key m) in
            fst (LMap_Delete key m) = False
          \<and> maps m' (writable m') = maps m (writable m)
          \<and> (if 0 <s maxReplicationWriteLag m
                  \<and> maxReplicationWriteLag m <s replicationWriteLag m + 1
              then maps m' (readable m') = maps m (writable m)
                 \<and> entries (oplog m') = []
                 \<and> replicationWriteLag m' = 0
              else maps m' = maps m
                 \<and> readable m' = readable m
                 \<and> writable m' = writable m
                 \<and> entries (oplog m') = entries (oplog m) @ [Delete key]
                 \<and> replicationWriteLag m' = replicationWriteLag m + 1))"
proof -
  define m where "m = LMap_run ds (LMap_NewMap options :: ('a, 'b) LMap)"
  have ci: "core_inv m" using LMap_reachable_inv [of ds options] by (simp add: m_def)
  have ab: "key \<notin> dom (maps m (writable m))" using assms by (simp add: m_def)
  note n = LMap_noop_Delete [OF ci ab]
  show ?thesis
    unfolding m_def [symmetric] Let_def crosses_pushed [of "Delete key" m, symmetric]
    using n(1) n(2) n(3) n(4) by (cases "crosses (pushed (Delete key) m)") simp_all
qed

theorem noop_Delete_counts_witness:
  "9 \<notin> dom (maps (LMap_run [LMutate (DoInsert 7 (Some 10))] (LMap_NewMap [] :: (nat, nat) LMap))
               (writable (LMap_run [LMutate (DoInsert 7 (Some 10))] (LMap_NewMap []))))
   \<and> (let m = LMap_run [LMutate (DoInsert 7 (Some 10))] (LMap_NewMap [] :: (nat, nat) LMap);
          m' = snd (LMap_Delete 9 m) in
        fst (LMap_Delete 9 m) = False
      \<and> maps m' (writable m') = maps m (writable m)
      \<and> maps m' = maps m
      \<and> entries (oplog m') = [Insert 7 (Some 10), Delete 9]
      \<and> replicationWriteLag m' = 2)"
proof -
  let ?m = "LMap_Insert 7 (Some 10) (LMap_NewMap [] :: (nat, nat) LMap)"
  have f: "writable ?m = 1" "maps ?m = applyEntry (Insert 7 (Some 10)) 1 (\<lambda>_. Map.empty)"
    "entries (oplog ?m) = [Insert 7 (Some 10)]" "replicationWriteLag ?m = 1"
    "maxReplicationWriteLag ?m = 0"
    by (simp_all add: LMap_Insert_fields crosses_pushed LMap_NewMap_fields word_sless_alt)
  have h: "9 \<notin> dom (maps (LMap_run [LMutate (DoInsert 7 (Some 10))] (LMap_NewMap [] :: (nat, nat) LMap))
               (writable (LMap_run [LMutate (DoInsert 7 (Some 10))] (LMap_NewMap []))))"
    by (simp add: f applyEntry_def)
  show ?thesis
    using h noop_Delete_counts_as_a_write [OF h]
    unfolding Let_def
    by (simp add: f)
qed

section \<open>The found flag\<close>

lemma spec_replay_entry_keeps_absent:
  "g key = None \<Longrightarrow> (\<forall>val. e \<noteq> Insert key val) \<Longrightarrow> spec_replay_entry g e key = None"
  by (cases e) (auto simp: spec_replay_entry_def restrict_map_def)

lemma foldl_replay_keeps_absent:
  "g key = None \<Longrightarrow> (\<forall>val. Insert key val \<notin> set es) \<Longrightarrow>
   foldl spec_replay_entry g es key = None"
proof (induction es arbitrary: g)
  case Nil
  then show ?case by simp
next
  case (Cons e es)
  have "spec_replay_entry g e key = None"
    using Cons.prems by (intro spec_replay_entry_keeps_absent) auto
  then show ?case using Cons.prems by (simp add: Cons.IH)
qed

lemma entry_of_not_Insert: "\<not> inserts_key key w \<Longrightarrow> entry_of w \<noteq> Insert key val"
  by (cases w) auto

lemma absent_push:
  assumes "absent key (m :: ('k, 'v, 'z) MapCore_scheme)" and "readable m \<noteq> writable m"
    and "readable m' = readable m" and "writable m' = writable m"
    and "entries (oplog m') = entries (oplog m) @ [e]"
    and "maps m' = applyEntry e (writable m) (maps m)"
    and "\<forall>val. e \<noteq> Insert key val"
  shows "absent key (m' :: ('k, 'v, 'y) MapCore_scheme)"
  using assms
  by (auto simp: absent_def applyEntry_at applyEntry_other spec_replay_entry_keeps_absent)

lemma absent_refresh:
  assumes "absent key (m :: ('k, 'v, 'z) MapCore_scheme)" and "readable m \<noteq> writable m"
    and "readable m' = writable m" and "writable m' = readable m"
    and "entries (oplog m') = []"
    and "maps m' = Log_Apply (oplog m) (readable m) (maps m)"
  shows "absent key (m' :: ('k, 'v, 'y) MapCore_scheme)"
  using assms
  by (simp add: absent_def Log_Apply_at Log_Apply_other foldl_replay_keeps_absent)

lemma absent_RMap_call:
  assumes ci: "core_inv m" and ab: "absent key m" and ni: "\<not> rcall_inserts key c"
  shows "absent key (RMap_call c m)"
proof -
  have ne: "readable m \<noteq> writable m" using ci by (simp add: core_inv_def)
  show ?thesis
  proof (cases c)
    case (Mutate w)
    have nI: "\<forall>val. entry_of w \<noteq> Insert key val"
      using ni Mutate by (simp add: entry_of_not_Insert)
    show ?thesis unfolding Mutate RMap_call.simps
      by (rule absent_push [OF ab ne _ _ _ _ nI]) (simp_all add: RMap_mutate_fields)
  next
    case DoRefresh
    from ab ne show ?thesis unfolding DoRefresh RMap_call.simps
      by (rule absent_refresh) (simp_all add: RMap_Refresh_fields)
  next
    case DoReader
    from ab show ?thesis by (simp add: DoReader absent_def RMap_Reader_fields)
  next
    case (DoClose r)
    obtain s' where "Reader_Close r m = Inr (m\<lparr>readers := s'\<rparr>)"
      using Reader_Close_result [of r m] by blast
    with ab show ?thesis by (simp add: DoClose absent_def)
  qed
qed

lemma absent_RMap_run:
  "core_inv m \<Longrightarrow> absent key m \<Longrightarrow> \<forall>c \<in> set cs. \<not> rcall_inserts key c \<Longrightarrow>
   absent key (RMap_run cs m)"
  by (induction cs arbitrary: m) (simp_all add: core_inv_RMap_call absent_RMap_call)

lemma absent_RMap_NewMap: "absent key RMap_NewMap"
  by (simp add: absent_def RMap_NewMap_def NewLog_def)

lemma absent_observeWrite:
  assumes "core_inv m" and "absent key m"
  shows "absent key (observeWrite m)"
proof (cases "crosses m")
  case True
  have ne: "readable m \<noteq> writable m" using assms(1) by (simp add: core_inv_def)
  from assms(2) ne show ?thesis
    by (rule absent_refresh) (simp_all add: observeWrite_fields True)
next
  case False
  with assms(2) show ?thesis by (simp add: absent_def observeWrite_fields)
qed

lemma absent_LMap_call:
  assumes ci: "core_inv m" and ab: "absent key m" and ni: "\<not> lcall_inserts key c"
  shows "absent key (LMap_call c m)"
proof -
  have ne: "readable m \<noteq> writable m" using ci by (simp add: core_inv_def)
  show ?thesis
  proof (cases c)
    case (LMutate w)
    have nI: "\<forall>val. entry_of w \<noteq> Insert key val"
      using ni LMutate by (simp add: entry_of_not_Insert)
    have "absent key (pushed (entry_of w) m)"
      by (rule absent_push [OF ab ne _ _ _ _ nI]) (simp_all add: pushed_fields)
    then show ?thesis
      by (simp add: LMutate LMap_mutate_pushed absent_observeWrite core_inv_pushed ci)
  next
    case LRefresh
    from ab ne show ?thesis unfolding LRefresh LMap_call.simps
      by (rule absent_refresh) (simp_all add: LMap_Refresh_fields)
  qed
qed

lemma absent_LMap_run:
  "core_inv m \<Longrightarrow> absent key m \<Longrightarrow> \<forall>c \<in> set cs. \<not> lcall_inserts key c \<Longrightarrow>
   absent key (LMap_run cs m)"
  by (induction cs arbitrary: m) (simp_all add: core_inv_LMap_call absent_LMap_call)

lemma absent_LMap_NewMap: "absent key (LMap_NewMap options)"
  by (simp add: absent_def LMap_NewMap_fields)

lemma LMap_Refresh_Get:
  "core_inv m \<Longrightarrow> LMap_Get (LMap_Refresh m) key = index (maps m (writable m)) key"
  by (simp add: LMap_Get_def LMap_Refresh_fields core_inv_def Log_Apply_other)

lemma LMap_Insert_writable:
  "maps (LMap_Insert key val m) (writable (LMap_Insert key val m)) key = Some val"
  by (simp add: LMap_Insert_fields Log_Apply_at pushed_fields applyEntry_at spec_replay_entry_def)

lemma LMap_Delete_writable:
  "maps (snd (LMap_Delete key m)) (writable (snd (LMap_Delete key m))) key = None"
  by (simp add: LMap_Delete_fields Log_Apply_at pushed_fields applyEntry_at
      spec_replay_Delete_absent)

lemma RMap_Insert_inv:
  "core_inv m \<Longrightarrow> readers_inv m \<Longrightarrow>
   core_inv (RMap_Insert key val m) \<and> readers_inv (RMap_Insert key val m)"
  using core_inv_RMap_call [of m "Mutate (DoInsert key val)"]
    readers_inv_RMap_call [of m "Mutate (DoInsert key val)"] by simp

lemma RMap_Delete_inv:
  "core_inv m \<Longrightarrow> readers_inv m \<Longrightarrow>
   core_inv (snd (RMap_Delete key m)) \<and> readers_inv (snd (RMap_Delete key m))"
  using core_inv_RMap_call [of m "Mutate (DoDelete key)"]
    readers_inv_RMap_call [of m "Mutate (DoDelete key)"] by simp

text \<open>
  Claim C9. The found flag tells presence, the value does not. In the state after any run of
  calls from \<^verbatim>\<open>NewMap\<close>: after a key is inserted with the nil pointer and a \<^verbatim>\<open>Refresh\<close> exposes
  it, \<^verbatim>\<open>Get\<close> of the engine (src/map.go) and \<^verbatim>\<open>Get\<close> of every reader in the registry
  (src/unnamed/part_000) return (nil, true); after the key is deleted and a \<^verbatim>\<open>Refresh\<close>
  follows, and whenever no call of the run inserted the key, they return (nil, false).
\<close>

theorem found_flag_tells_presence:
  "(let n = LMap_run ds (LMap_NewMap options) in
      LMap_Get (LMap_Refresh (LMap_Insert key None n)) key = (None, True)
    \<and> LMap_Get (LMap_Refresh (snd (LMap_Delete key n))) key = (None, False)
    \<and> ((\<forall>c \<in> set ds. \<not> lcall_inserts key c) \<longrightarrow> LMap_Get n key = (None, False)))
 \<and> (let m = RMap_run cs RMap_NewMap;
         m1 = RMap_Refresh (RMap_Insert key None m);
         m2 = RMap_Refresh (snd (RMap_Delete key m)) in
      r \<in> set (readers m) \<longrightarrow>
        Reader_Get (rheap m1 ! r) (maps m1) key = Inr (None, True)
      \<and> Reader_Get (rheap m2 ! r) (maps m2) key = Inr (None, False)
      \<and> ((\<forall>c \<in> set cs. \<not> rcall_inserts key c) \<longrightarrow>
            Reader_Get (rheap m ! r) (maps m) key = Inr (None, False)))"
proof -
  define n where "n = LMap_run ds (LMap_NewMap options :: ('a, 'b) LMap)"
  define m where "m = RMap_run cs (RMap_NewMap :: ('a, 'c) RMap)"
  have cn: "core_inv n" using LMap_reachable_inv [of ds options] by (simp add: n_def)
  have cm: "core_inv m" and rm: "readers_inv m"
    using RMap_reachable_inv [of cs] by (simp_all add: m_def)
  have cn1: "core_inv (LMap_Insert key None n)"
    using core_inv_LMap_call [OF cn, of "LMutate (DoInsert key None)"] by simp
  have cn2: "core_inv (snd (LMap_Delete key n))"
    using core_inv_LMap_call [OF cn, of "LMutate (DoDelete key)"] by simp
  have L1: "LMap_Get (LMap_Refresh (LMap_Insert key None n)) key = (None, True)"
    by (simp add: LMap_Refresh_Get [OF cn1] LMap_Insert_writable index_def)
  have L2: "LMap_Get (LMap_Refresh (snd (LMap_Delete key n))) key = (None, False)"
    by (simp add: LMap_Refresh_Get [OF cn2] LMap_Delete_writable index_def)
  have L3: "LMap_Get n key = (None, False)" if "\<forall>c \<in> set ds. \<not> lcall_inserts key c"
  proof -
    have "absent key n" unfolding n_def
      using core_inv_LMap_NewMap absent_LMap_NewMap that by (rule absent_LMap_run)
    then show ?thesis by (simp add: absent_def LMap_Get_def index_def)
  qed
  have R: "Reader_Get (rheap (RMap_Refresh (RMap_Insert key None m)) ! r)
             (maps (RMap_Refresh (RMap_Insert key None m))) key = Inr (None, True)
         \<and> Reader_Get (rheap (RMap_Refresh (snd (RMap_Delete key m))) ! r)
             (maps (RMap_Refresh (snd (RMap_Delete key m)))) key = Inr (None, False)
         \<and> ((\<forall>c \<in> set cs. \<not> rcall_inserts key c) \<longrightarrow>
               Reader_Get (rheap m ! r) (maps m) key = Inr (None, False))"
    if r: "r \<in> set (readers m)"
  proof (intro conjI impI)
    have i: "core_inv (RMap_Insert key None m)" "readers_inv (RMap_Insert key None m)"
      using RMap_Insert_inv [OF cm rm] by simp_all
    have ri: "r \<in> set (readers (RMap_Insert key None m))" using r by (simp add: RMap_Insert_fields)
    show "Reader_Get (rheap (RMap_Refresh (RMap_Insert key None m)) ! r)
             (maps (RMap_Refresh (RMap_Insert key None m))) key = Inr (None, True)"
      by (simp add: RMap_Refresh_reader(1) [OF i ri] RMap_Insert_fields applyEntry_at
          spec_replay_entry_def index_def)
    have d: "core_inv (snd (RMap_Delete key m))" "readers_inv (snd (RMap_Delete key m))"
      using RMap_Delete_inv [OF cm rm] by simp_all
    have rd: "r \<in> set (readers (snd (RMap_Delete key m)))" using r by (simp add: RMap_Delete_fields)
    show "Reader_Get (rheap (RMap_Refresh (snd (RMap_Delete key m))) ! r)
             (maps (RMap_Refresh (snd (RMap_Delete key m)))) key = Inr (None, False)"
      by (simp add: RMap_Refresh_reader(1) [OF d rd] RMap_Delete_fields applyEntry_at
          spec_replay_Delete_absent index_def)
    assume "\<forall>c \<in> set cs. \<not> rcall_inserts key c"
    with core_inv_RMap_NewMap absent_RMap_NewMap have "absent key m"
      unfolding m_def by (rule absent_RMap_run)
    then show "Reader_Get (rheap m ! r) (maps m) key = Inr (None, False)"
      by (simp add: RMap_reader_reads_readable(1) [OF rm r] absent_def index_def)
  qed
  show ?thesis
    unfolding n_def [symmetric] m_def [symmetric] Let_def
    using L1 L2 L3 R by simp
qed

theorem found_flag_witness:
  "0 \<in> set (readers (RMap_run [DoReader, Mutate (DoInsert 7 (Some 10))] (RMap_NewMap :: (nat, nat) RMap)))
   \<and> \<not> rcall_inserts 9 (DoReader :: (nat, nat) rcall)
   \<and> \<not> rcall_inserts 9 (Mutate (DoInsert 7 (Some 10)) :: (nat, nat) rcall)
   \<and> \<not> lcall_inserts 9 (LMutate (DoInsert 7 (Some 10)) :: (nat, nat) lcall)
   \<and> (let n = LMap_run [LMutate (DoInsert 7 (Some 10))] (LMap_NewMap [] :: (nat, nat) LMap);
          m = RMap_run [DoReader, Mutate (DoInsert 7 (Some 10))] (RMap_NewMap :: (nat, nat) RMap);
          m1 = RMap_Refresh (RMap_Insert 9 None m) in
        LMap_Get (LMap_Refresh (LMap_Insert 9 None n)) 9 = (None, True)
      \<and> LMap_Get n 9 = (None, False)
      \<and> Reader_Get (rheap m1 ! 0) (maps m1) 9 = Inr (None, True)
      \<and> Reader_Get (rheap m ! 0) (maps m) 9 = Inr (None, False))"
proof -
  have h: "0 \<in> set (readers (RMap_run [DoReader, Mutate (DoInsert 7 (Some 10))] (RMap_NewMap :: (nat, nat) RMap)))"
    by (simp add: RMap_Insert_fields RMap_Reader_fields RMap_NewMap_def)
  have a: "\<forall>c \<in> set [DoReader, Mutate (DoInsert 7 (Some 10)) :: (nat, nat) rcall]. \<not> rcall_inserts 9 c"
    by simp
  have b: "\<forall>c \<in> set [LMutate (DoInsert 7 (Some 10)) :: (nat, nat) lcall]. \<not> lcall_inserts 9 c"
    by simp
  show ?thesis
    using h a b found_flag_tells_presence [where key = "9::nat" and r = 0
        and ds = "[LMutate (DoInsert 7 (Some (10::nat)))]" and options = "[]"
        and cs = "[DoReader, Mutate (DoInsert 7 (Some (10::nat)))]"]
    unfolding Let_def by simp
qed

end
